theory Spec2Isabelle
  imports Complex_Main "HOL-Library.AList"
begin

section \<open>The Controls engine (src/unnamed/part\_000)\<close>

text \<open>
  The engine is a JavaScript class whose methods mutate the fields of \<open>this\<close>. The
  model passes the engine state explicitly. A call either returns or throws; a thrown
  \<open>Error\<close> leaves every mutation done before the \<open>throw\<close> in place, so both outcomes
  carry the state the engine is left in.

  Conventions of the model:
  \<^item> \<open>_methods\<close> and \<open>_methodGroups\<close> are plain objects used as dictionaries. They are
    association lists in insertion order, which is the order in which \<open>for (id in obj)\<close>
    enumerates keys that are not array indices. Assigning to an existing key keeps its
    position, assigning to a new key appends, \<open>delete\<close> removes (\<open>AList.update\<close>,
    \<open>AList.delete\<close>). Keys inherited from \<open>Object.prototype\<close> are not modelled.
  \<^item> A control method instance, a view and a render loop are objects compared by
    identity; each is a natural number naming the object.
  \<^item> \<open>emit\<close> (from the package minimal-event-emitter) appends to a log of the events the
    engine has emitted. Listeners of the engine's events are outside the model: they are
    taken not to call back into the engine while it emits.
  \<^item> The module-level constant \<open>debug\<close> is the first argument \<open>dbg\<close> of every function
    that reads it.
\<close>

type_synonym method_id = string
type_synonym control_method = nat
type_synonym view = nat
type_synonym render_loop = nat

text \<open>The record stored under \<open>this._methods[id]\<close>. Its two bound handlers
  \<open>activeHandler\<close> and \<open>inactiveHandler\<close> are \<open>_handleActive\<close> and \<open>_handleInactive\<close> with
  the id fixed; they are named by the id and the signal they are subscribed to.\<close>

record registration =
  m_instance :: control_method
  m_enabled :: bool
  m_active :: bool

datatype signal = SigActive | SigInactive

datatype event =
    EvActive | EvInactive | EvEnabled | EvDisabled
  | EvMethodEnabled method_id | EvMethodDisabled method_id

datatype call =
    ComposerOffsets
  | RenderOnNextFrame render_loop
  | UpdateWithControlParameters view int

datatype error =
    AlreadyRegistered method_id
  | NotRegistered method_id
  | BadMethodId
  | EventFromDisabledMethod
  | BadControlState
  | TypeError

datatype 's outcome = Returns 's | Throws error 's

fun state_of :: "'s outcome \<Rightarrow> 's" where
  "state_of (Returns s) = s"
| "state_of (Throws e s) = s"

fun returned :: "'s outcome \<Rightarrow> bool" where
  "returned (Returns s) = True"
| "returned (Throws e s) = False"

text \<open>Sequencing of statements: what follows a call runs only when the call returned.\<close>

fun and_then :: "'s outcome \<Rightarrow> ('s \<Rightarrow> 's outcome) \<Rightarrow> 's outcome" where
  "and_then (Returns s) f = f s"
| "and_then (Throws e s) f = Throws e s"

record controls =
  c_methods :: "(method_id \<times> registration) list"
  c_methodGroups :: "(method_id \<times> method_id list) list"
  c_composer :: "control_method list"
  c_enabled :: bool
  c_activeCount :: int
  c_updatedViews :: "view list"
  c_attachedRenderLoop :: "render_loop option"
  c_listeners :: "(control_method \<times> signal \<times> method_id) list"
  c_emitted :: "event list"
  c_calls :: "call list"

subsection \<open>JavaScript values read by the constructor\<close>

datatype jsval =
    JUndefined | JNull | JBool bool | JNum int | JNaN | JStr string | JObject

fun truthy :: "jsval \<Rightarrow> bool" where
  "truthy JUndefined = False"
| "truthy JNull = False"
| "truthy (JBool b) = b"
| "truthy (JNum n) = (n \<noteq> 0)"
| "truthy JNaN = False"
| "truthy (JStr s) = (s \<noteq> [])"
| "truthy JObject = True"

text \<open>The constructor's argument: \<open>None\<close> when it is omitted (or falsy), otherwise the
  value of its \<open>enabled\<close> property (\<open>JUndefined\<close> when the property is absent).\<close>

definition constructor :: "jsval option \<Rightarrow> controls" where
  "constructor opts =
     (let opts_enabled = (case opts of None \<Rightarrow> JUndefined | Some v \<Rightarrow> v)
      in \<lparr> c_methods = [],
           c_methodGroups = [],
           c_composer = [],
           c_enabled = (if truthy opts_enabled then truthy opts_enabled else True),
           c_activeCount = 0,
           c_updatedViews = [],
           c_attachedRenderLoop = None,
           c_listeners = [],
           c_emitted = [],
           c_calls = [] \<rparr>)"

definition enabled :: "controls \<Rightarrow> bool" where
  "enabled s = c_enabled s"

definition emit :: "event \<Rightarrow> controls \<Rightarrow> controls" where
  "emit e s = s\<lparr>c_emitted := c_emitted s @ [e]\<rparr>"

subsection \<open>The Composer\<close>

text \<open>Modelled from the spec: the class Composer (\<open>./Composer\<close>) is not among the
  sources. The spec gives it a membership set of control method instances that the engine
  drives through \<open>has\<close>, \<open>add\<close> and \<open>remove\<close>; a membership change has no other effect.\<close>

definition composer_has :: "control_method list \<Rightarrow> control_method \<Rightarrow> bool" where
  "composer_has c x = (x \<in> set c)"

definition composer_add :: "control_method list \<Rightarrow> control_method \<Rightarrow> control_method list" where
  "composer_add c x = (if x \<in> set c then c else c @ [x])"

definition composer_remove :: "control_method list \<Rightarrow> control_method \<Rightarrow> control_method list" where
  "composer_remove c x = removeAll x c"

subsection \<open>Private helpers\<close>

text \<open>\<open>_checkActiveCount\<close>: the loop counts the records that are enabled and active.\<close>

fun checkActiveCount_loop :: "(method_id \<times> registration) list \<Rightarrow> int \<Rightarrow> int" where
  "checkActiveCount_loop [] count = count"
| "checkActiveCount_loop ((i, m) # ms) count =
     checkActiveCount_loop ms (if m_enabled m \<and> m_active m then count + 1 else count)"

definition checkActiveCount :: "controls \<Rightarrow> controls outcome" where
  "checkActiveCount s =
     (if checkActiveCount_loop (c_methods s) 0 \<noteq> c_activeCount s
      then Throws BadControlState s else Returns s)"

definition incrementActiveCount :: "bool \<Rightarrow> controls \<Rightarrow> controls outcome" where
  "incrementActiveCount dbg s =
     and_then
       (let s1 = s\<lparr>c_activeCount := c_activeCount s + 1\<rparr>
        in if dbg then checkActiveCount s1 else Returns s1)
       (\<lambda>s2. Returns (if c_enabled s2 \<and> c_activeCount s2 = 1 then emit EvActive s2 else s2))"

definition decrementActiveCount :: "bool \<Rightarrow> controls \<Rightarrow> controls outcome" where
  "decrementActiveCount dbg s =
     and_then
       (let s1 = s\<lparr>c_activeCount := c_activeCount s - 1\<rparr>
        in if dbg then checkActiveCount s1 else Returns s1)
       (\<lambda>s2. Returns (if c_enabled s2 \<and> c_activeCount s2 = 0 then emit EvInactive s2 else s2))"

text \<open>\<open>_updateComposer\<close>: one pass over the records, adding and removing instances.\<close>

fun updateComposer_loop ::
  "bool \<Rightarrow> (method_id \<times> registration) list \<Rightarrow> control_method list \<Rightarrow> control_method list"
where
  "updateComposer_loop en [] c = c"
| "updateComposer_loop en ((i, m) # ms) c =
     (let enabled = en \<and> m_enabled m;
          c1 = (if enabled \<and> \<not> composer_has c (m_instance m)
                then composer_add c (m_instance m) else c);
          c2 = (if \<not> enabled \<and> composer_has c1 (m_instance m)
                then composer_remove c1 (m_instance m) else c1)
      in updateComposer_loop en ms c2)"

definition updateComposer :: "controls \<Rightarrow> controls" where
  "updateComposer s =
     s\<lparr>c_composer := updateComposer_loop (c_enabled s) (c_methods s) (c_composer s)\<rparr>"

text \<open>\<open>_listen\<close> and \<open>_unlisten\<close> subscribe the record's two handlers to its instance.
  The instance's listener lists belong to the instance; the model keeps them in
  \<open>c_listeners\<close>. \<open>removeEventListener\<close> drops one occurrence of the handler.\<close>

definition listen :: "method_id \<Rightarrow> controls \<Rightarrow> controls outcome" where
  "listen i s =
     (case map_of (c_methods s) i of
        None \<Rightarrow> Throws BadMethodId s
      | Some m \<Rightarrow>
          Returns (s\<lparr>c_listeners := c_listeners s @
                      [(m_instance m, SigActive, i), (m_instance m, SigInactive, i)]\<rparr>))"

definition unlisten :: "method_id \<Rightarrow> controls \<Rightarrow> controls outcome" where
  "unlisten i s =
     (case map_of (c_methods s) i of
        None \<Rightarrow> Throws BadMethodId s
      | Some m \<Rightarrow>
          Returns (s\<lparr>c_listeners :=
                      remove1 (m_instance m, SigInactive, i)
                        (remove1 (m_instance m, SigActive, i) (c_listeners s))\<rparr>))"

text \<open>A field assignment \<open>method.enabled = v\<close> or \<open>method.active = v\<close> on the record held
  under \<open>this._methods[i]\<close>.\<close>

definition set_record :: "method_id \<Rightarrow> registration \<Rightarrow> controls \<Rightarrow> controls" where
  "set_record i m s = s\<lparr>c_methods := AList.update i m (c_methods s)\<rparr>"

subsection \<open>Public operations\<close>

definition enableMethod :: "bool \<Rightarrow> method_id \<Rightarrow> controls \<Rightarrow> controls outcome" where
  "enableMethod dbg i s =
     (case map_of (c_methods s) i of
        None \<Rightarrow> Throws (NotRegistered i) s
      | Some m \<Rightarrow>
          if m_enabled m then Returns s
          else
            and_then
              (let s1 = set_record i (m\<lparr>m_enabled := True\<rparr>) s
               in if m_active m then incrementActiveCount dbg s1 else Returns s1)
              (\<lambda>s2. and_then (listen i s2)
                (\<lambda>s3. Returns (emit (EvMethodEnabled i) (updateComposer s3)))))"

definition disableMethod :: "bool \<Rightarrow> method_id \<Rightarrow> controls \<Rightarrow> controls outcome" where
  "disableMethod dbg i s =
     (case map_of (c_methods s) i of
        None \<Rightarrow> Throws (NotRegistered i) s
      | Some m \<Rightarrow>
          if \<not> m_enabled m then Returns s
          else
            and_then
              (let s1 = set_record i (m\<lparr>m_enabled := False\<rparr>) s
               in if m_active m then decrementActiveCount dbg s1 else Returns s1)
              (\<lambda>s2. and_then (unlisten i s2)
                (\<lambda>s3. Returns (emit (EvMethodDisabled i) (updateComposer s3)))))"

definition registerMethod ::
  "bool \<Rightarrow> method_id \<Rightarrow> control_method \<Rightarrow> bool \<Rightarrow> controls \<Rightarrow> controls outcome"
where
  "registerMethod dbg i x enable s =
     (case map_of (c_methods s) i of
        Some m \<Rightarrow> Throws (AlreadyRegistered i) s
      | None \<Rightarrow>
          (let s1 = set_record i \<lparr>m_instance = x, m_enabled = False, m_active = False\<rparr> s
           in if enable then enableMethod dbg i s1 else Returns s1))"

definition unregisterMethod :: "bool \<Rightarrow> method_id \<Rightarrow> controls \<Rightarrow> controls outcome" where
  "unregisterMethod dbg i s =
     (case map_of (c_methods s) i of
        None \<Rightarrow> Throws (NotRegistered i) s
      | Some m \<Rightarrow>
          and_then (if m_enabled m then disableMethod dbg i s else Returns s)
            (\<lambda>s1. Returns (s1\<lparr>c_methods := AList.delete i (c_methods s1)\<rparr>)))"

definition addMethodGroup :: "method_id \<Rightarrow> method_id list \<Rightarrow> controls \<Rightarrow> controls outcome" where
  "addMethodGroup g ids s =
     Returns (s\<lparr>c_methodGroups := AList.update g ids (c_methodGroups s)\<rparr>)"

definition removeMethodGroup :: "method_id \<Rightarrow> controls \<Rightarrow> controls outcome" where
  "removeMethodGroup g s =
     Returns (s\<lparr>c_methodGroups := AList.delete g (c_methodGroups s)\<rparr>)"

text \<open>\<open>Array.prototype.forEach\<close> with a callback that may throw: the first throw ends
  the iteration.\<close>

fun forEach ::
  "method_id list \<Rightarrow> (method_id \<Rightarrow> controls \<Rightarrow> controls outcome) \<Rightarrow> controls
     \<Rightarrow> controls outcome"
where
  "forEach [] f s = Returns s"
| "forEach (i # ids) f s = and_then (f i s) (forEach ids f)"

text \<open>Reading \<open>forEach\<close> off \<open>undefined\<close> (no group under that id) is a TypeError.\<close>

definition enableMethodGroup :: "bool \<Rightarrow> method_id \<Rightarrow> controls \<Rightarrow> controls outcome" where
  "enableMethodGroup dbg g s =
     (case map_of (c_methodGroups s) g of
        None \<Rightarrow> Throws TypeError s
      | Some ids \<Rightarrow> forEach ids (enableMethod dbg) s)"

definition disableMethodGroup :: "bool \<Rightarrow> method_id \<Rightarrow> controls \<Rightarrow> controls outcome" where
  "disableMethodGroup dbg g s =
     (case map_of (c_methodGroups s) g of
        None \<Rightarrow> Throws TypeError s
      | Some ids \<Rightarrow> forEach ids (disableMethod dbg) s)"

definition enable :: "controls \<Rightarrow> controls outcome" where
  "enable s =
     (if c_enabled s then Returns s
      else
        (let s1 = s\<lparr>c_enabled := True\<rparr>;
             s2 = (if c_activeCount s1 > 0 then emit EvActive s1 else s1);
             s3 = emit EvEnabled s2
         in Returns (updateComposer s3)))"

definition disable :: "controls \<Rightarrow> controls outcome" where
  "disable s =
     (if \<not> c_enabled s then Returns s
      else
        (let s1 = s\<lparr>c_enabled := False\<rparr>;
             s2 = (if c_activeCount s1 > 0 then emit EvInactive s1 else s1);
             s3 = emit EvDisabled s2
         in Returns (updateComposer s3)))"

text \<open>\<open>_handleActive\<close> and \<open>_handleInactive\<close>: the handlers an instance calls when it
  signals the start or the end of activity.\<close>

definition handleActive :: "bool \<Rightarrow> method_id \<Rightarrow> controls \<Rightarrow> controls outcome" where
  "handleActive dbg i s =
     (case map_of (c_methods s) i of
        None \<Rightarrow> Throws BadMethodId s
      | Some m \<Rightarrow>
          if \<not> m_enabled m then Throws EventFromDisabledMethod s
          else if \<not> m_active m
          then incrementActiveCount dbg (set_record i (m\<lparr>m_active := True\<rparr>) s)
          else Returns s)"

definition handleInactive :: "bool \<Rightarrow> method_id \<Rightarrow> controls \<Rightarrow> controls outcome" where
  "handleInactive dbg i s =
     (case map_of (c_methods s) i of
        None \<Rightarrow> Throws BadMethodId s
      | Some m \<Rightarrow>
          if \<not> m_enabled m then Throws EventFromDisabledMethod s
          else if m_active m
          then decrementActiveCount dbg (set_record i (m\<lparr>m_active := False\<rparr>) s)
          else Returns s)"

subsection \<open>Sequences of operations\<close>

datatype operation =
    RegisterMethod method_id control_method bool
  | UnregisterMethod method_id
  | EnableMethod method_id
  | DisableMethod method_id
  | AddMethodGroup method_id "method_id list"
  | RemoveMethodGroup method_id
  | EnableMethodGroup method_id
  | DisableMethodGroup method_id
  | Enable
  | Disable
  | HandleActive method_id
  | HandleInactive method_id

fun step :: "bool \<Rightarrow> operation \<Rightarrow> controls \<Rightarrow> controls outcome" where
  "step dbg (RegisterMethod i x e) s = registerMethod dbg i x e s"
| "step dbg (UnregisterMethod i) s = unregisterMethod dbg i s"
| "step dbg (EnableMethod i) s = enableMethod dbg i s"
| "step dbg (DisableMethod i) s = disableMethod dbg i s"
| "step dbg (AddMethodGroup g ids) s = addMethodGroup g ids s"
| "step dbg (RemoveMethodGroup g) s = removeMethodGroup g s"
| "step dbg (EnableMethodGroup g) s = enableMethodGroup dbg g s"
| "step dbg (DisableMethodGroup g) s = disableMethodGroup dbg g s"
| "step dbg Enable s = enable s"
| "step dbg Disable s = disable s"
| "step dbg (HandleActive i) s = handleActive dbg i s"
| "step dbg (HandleInactive i) s = handleInactive dbg i s"

text \<open>A caller that goes on after a failed call finds the engine in the state the throw
  left it in.\<close>

fun run :: "bool \<Rightarrow> operation list \<Rightarrow> controls \<Rightarrow> controls" where
  "run dbg [] s = s"
| "run dbg (op # ops) s = run dbg ops (state_of (step dbg op s))"

text \<open>The number of registration records that are both enabled and active.\<close>

definition enabled_active_records :: "controls \<Rightarrow> nat" where
  "enabled_active_records s =
     length (filter (\<lambda>(i, m). m_enabled m \<and> m_active m) (c_methods s))"

subsection \<open>Attachment to a render loop and the pre-render step\<close>

text \<open>\<open>attach\<close> and \<open>detach\<close> also subscribe and unsubscribe two handlers on the render
  loop and on the Composer; the model keeps the attached render loop only.\<close>

definition detach :: "controls \<Rightarrow> controls outcome" where
  "detach s =
     (case c_attachedRenderLoop s of
        None \<Rightarrow> Returns s
      | Some rl \<Rightarrow> Returns (s\<lparr>c_attachedRenderLoop := None\<rparr>))"

definition attach :: "render_loop \<Rightarrow> controls \<Rightarrow> controls outcome" where
  "attach rl s =
     and_then (if c_attachedRenderLoop s \<noteq> None then detach s else Returns s)
       (\<lambda>s1. Returns (s1\<lparr>c_attachedRenderLoop := Some rl\<rparr>))"

definition attached :: "controls \<Rightarrow> bool" where
  "attached s = (c_attachedRenderLoop s \<noteq> None)"

text \<open>A layer (src/src/Layer.js); \<open>view()\<close> returns the field \<open>_view\<close>, the only field
  the engine reads.\<close>

record layer =
  l_view :: view

text \<open>What \<open>this._composer.offsets()\<close> returns. The Composer is not among the sources, so
  the value it returns for a frame is an argument of the pre-render step, as is the list
  that \<open>stage().listLayers()\<close> returns.\<close>

record controlData =
  cd_offsets :: int
  cd_changing :: bool

fun updateViews_loop :: "layer list \<Rightarrow> int \<Rightarrow> controls \<Rightarrow> controls" where
  "updateViews_loop [] offs s = s"
| "updateViews_loop (l # ls) offs s =
     (let view = l_view l
      in if view \<notin> set (c_updatedViews s)
         then updateViews_loop ls offs
                (s\<lparr>c_calls := c_calls s @ [UpdateWithControlParameters (l_view l) offs],
                   c_updatedViews := c_updatedViews s @ [view]\<rparr>)
         else updateViews_loop ls offs s)"

text \<open>\<open>_updateViewsWithControls\<close>. With no render loop attached, reading a property
  of \<open>null\<close> is a TypeError.\<close>

definition updateViewsWithControls ::
  "controlData \<Rightarrow> layer list \<Rightarrow> controls \<Rightarrow> controls outcome"
where
  "updateViewsWithControls controlData layers s =
     (let s0 = s\<lparr>c_calls := c_calls s @ [ComposerOffsets]\<rparr>
      in and_then
           (if cd_changing controlData
            then (case c_attachedRenderLoop s0 of
                    None \<Rightarrow> Throws TypeError s0
                  | Some rl \<Rightarrow> Returns (s0\<lparr>c_calls := c_calls s0 @ [RenderOnNextFrame rl]\<rparr>))
            else Returns s0)
           (\<lambda>s1.
              (let s2 = s1\<lparr>c_updatedViews := []\<rparr>
               in case c_attachedRenderLoop s2 of
                    None \<Rightarrow> Throws TypeError s2
                  | Some rl \<Rightarrow> Returns (updateViews_loop layers (cd_offsets controlData) s2))))"

section \<open>The Timer (src/src/Timer.js)\<close>

text \<open>
  A duration is a JavaScript number: a finite value or \<open>Infinity\<close> (the default). Times
  are real numbers. The clock \<open>now()\<close> is not part of the state: every operation that
  reads it, or that calls \<open>setTimeout\<close>, takes the current time \<open>t\<close> as an argument, and
  all statements of one call run at that instant.

  \<open>_handle\<close> is the id of the pending \<open>setTimeout\<close>, or \<open>null\<close>. The model keeps in its
  place the time at which the pending call of \<open>_check\<close> is due: the time of the
  \<open>setTimeout\<close> call plus the interval.
\<close>

datatype number = Fin real | Infinity

text \<open>\<open>d - e\<close> and the comparison \<open>r <= 0\<close> of the source; \<open>r < Infinity\<close> is a case
  distinction on the number.\<close>

fun minus_number :: "number \<Rightarrow> real \<Rightarrow> number" where
  "minus_number (Fin d) e = Fin (d - e)"
| "minus_number Infinity e = Infinity"

fun le_zero :: "number \<Rightarrow> bool" where
  "le_zero (Fin r) = (r \<le> 0)"
| "le_zero Infinity = False"

datatype timer_event = Timeout

record timer =
  t_duration :: number
  t_startTime :: "real option"
  t_handle :: "real option"
  t_emitted :: "timer_event list"

text \<open>The constructor's option \<open>duration\<close>; \<open>None\<close> when it is not given.\<close>

definition timer_constructor :: "number option \<Rightarrow> timer" where
  "timer_constructor opts_duration =
     \<lparr> t_duration = (case opts_duration of None \<Rightarrow> Infinity | Some d \<Rightarrow> d),
       t_startTime = None,
       t_handle = None,
       t_emitted = [] \<rparr>"

text \<open>\<open>_setup(interval)\<close> (here \<open>timer_setup\<close>), called at time \<open>t\<close>. Both callers
  pass an interval below \<open>Infinity\<close>.\<close>

definition timer_setup :: "real \<Rightarrow> real \<Rightarrow> timer \<Rightarrow> timer" where
  "timer_setup t interval s = s\<lparr>t_handle := Some (t + interval)\<rparr>"

definition teardown :: "timer \<Rightarrow> timer" where
  "teardown s = s\<lparr>t_handle := None\<rparr>"

definition start :: "real \<Rightarrow> timer \<Rightarrow> timer" where
  "start t s =
     (let s1 = s\<lparr>t_startTime := Some t\<rparr>
      in case t_duration s1 of
           Fin d \<Rightarrow> if t_handle s1 = None then timer_setup t d s1 else s1
         | Infinity \<Rightarrow> s1)"

definition started :: "timer \<Rightarrow> bool" where
  "started s = (t_startTime s \<noteq> None)"

definition stop :: "timer \<Rightarrow> timer" where
  "stop s =
     (let s1 = s\<lparr>t_startTime := None\<rparr>
      in if t_handle s1 \<noteq> None then s1\<lparr>t_handle := None\<rparr> else s1)"

definition duration :: "timer \<Rightarrow> number" where
  "duration s = t_duration s"

text \<open>\<open>_check\<close>, run at time \<open>t\<close>. In \<open>currentTime - this._startTime\<close> a \<open>null\<close> start
  time counts as 0.\<close>

definition check :: "real \<Rightarrow> timer \<Rightarrow> timer" where
  "check t s =
     (let currentTime = t;
          elapsed = currentTime - (case t_startTime s of None \<Rightarrow> 0 | Some t0 \<Rightarrow> t0);
          remaining = minus_number (t_duration s) elapsed;
          s1 = teardown s
      in if le_zero remaining
         then s1\<lparr>t_emitted := t_emitted s1 @ [Timeout], t_startTime := None\<rparr>
         else (case remaining of
                 Fin r \<Rightarrow> timer_setup t r s1
               | Infinity \<Rightarrow> s1))"

definition setDuration :: "real \<Rightarrow> number \<Rightarrow> timer \<Rightarrow> timer" where
  "setDuration t d s =
     (let s1 = s\<lparr>t_duration := d\<rparr>
      in if t_startTime s1 \<noteq> None then check t s1 else s1)"

text \<open>The environment: at time \<open>t\<close> the pending timeout, when it is due, calls
  \<open>_check\<close>. A timeout that is not due yet, or that has been cleared, does not run.\<close>

definition timeout_fires :: "real \<Rightarrow> timer \<Rightarrow> timer" where
  "timeout_fires t s =
     (case t_handle s of
        None \<Rightarrow> s
      | Some due \<Rightarrow> if due \<le> t then check t s else s)"

section \<open>Auxiliary notions for the properties\<close>

text \<open>The contribution of one record to the active count, and the count over all
  records.\<close>

definition active_flag :: "registration \<Rightarrow> int" where
  "active_flag m = (if m_enabled m \<and> m_active m then 1 else 0)"

definition count_records :: "(method_id \<times> registration) list \<Rightarrow> int" where
  "count_records ms = int (length (filter (\<lambda>(i, m). m_enabled m \<and> m_active m) ms))"

text \<open>A consistent engine state: no id is registered twice, and the counter equals the
  number of enabled and active records.\<close>

definition count_ok :: "controls \<Rightarrow> bool" where
  "count_ok s =
     (distinct (map fst (c_methods s)) \<and> c_activeCount s = count_records (c_methods s))"

text \<open>The events emitted between two states of the engine.\<close>

definition new_events :: "controls \<Rightarrow> controls \<Rightarrow> event list" where
  "new_events s s' = drop (length (c_emitted s)) (c_emitted s')"

text \<open>How a call that can only raise the active count relates the state before it to the
  state after it, and likewise for a call that can only lower it: the engine-wide flag is
  kept, and \<open>active\<close> (\<open>inactive\<close>) is emitted once exactly when the engine is enabled
  and the count leaves (reaches) zero.\<close>

definition rises :: "controls \<Rightarrow> controls \<Rightarrow> bool" where
  "rises s s' =
     (count_ok s' \<and> c_enabled s' = c_enabled s \<and> c_activeCount s \<le> c_activeCount s' \<and>
      (\<exists>evs. c_emitted s' = c_emitted s @ evs \<and> EvInactive \<notin> set evs \<and>
         count_list evs EvActive =
           (if c_enabled s \<and> c_activeCount s = 0 \<and> 1 \<le> c_activeCount s' then 1 else 0)))"

definition falls :: "controls \<Rightarrow> controls \<Rightarrow> bool" where
  "falls s s' =
     (count_ok s' \<and> c_enabled s' = c_enabled s \<and> c_activeCount s' \<le> c_activeCount s \<and>
      (\<exists>evs. c_emitted s' = c_emitted s @ evs \<and> EvActive \<notin> set evs \<and>
         count_list evs EvInactive =
           (if c_enabled s \<and> 1 \<le> c_activeCount s \<and> c_activeCount s' = 0 then 1 else 0)))"

text \<open>The scenario of the spec: two methods, both registered enabled.\<close>

definition keyboard_and_touch :: "operation list" where
  "keyboard_and_touch =
     [RegisterMethod ''keyboard'' 1 True, RegisterMethod ''touch'' 2 True]"


text \<open>The instances of the records, and the instances of the records that are enabled
  while the engine is: the membership the Composer is specified to have.\<close>

definition instances :: "(method_id \<times> registration) list \<Rightarrow> control_method list" where
  "instances ms = map (\<lambda>(i, m). m_instance m) ms"

definition engaged :: "bool \<Rightarrow> (method_id \<times> registration) list \<Rightarrow> control_method list" where
  "engaged en ms = instances (filter (\<lambda>(i, m). en \<and> m_enabled m) ms)"

definition engaged_instances :: "controls \<Rightarrow> control_method set" where
  "engaged_instances s = set (engaged (c_enabled s) (c_methods s))"

text \<open>A call is admissible when it does not register an instance that is registered
  already (under any id); a sequence is admissible when each call is, in the state it is
  made in.\<close>

fun admissible :: "operation \<Rightarrow> controls \<Rightarrow> bool" where
  "admissible (RegisterMethod i x e) s = (x \<notin> set (instances (c_methods s)))"
| "admissible op s = True"

fun admissible_run :: "bool \<Rightarrow> operation list \<Rightarrow> controls \<Rightarrow> bool" where
  "admissible_run dbg [] s = True"
| "admissible_run dbg (op # ops) s =
     (admissible op s \<and> admissible_run dbg ops (state_of (step dbg op s)))"

text \<open>A consistent state whose records have pairwise different instances and whose
  Composer holds exactly the engaged instances.\<close>

definition composer_ok :: "controls \<Rightarrow> bool" where
  "composer_ok s =
     (count_ok s \<and> distinct (instances (c_methods s)) \<and>
      set (c_composer s) = engaged_instances s)"

section \<open>Properties of the Controls engine\<close>

subsection \<open>The active count\<close>

lemma checkActiveCount_loop_count: "checkActiveCount_loop ms n = n + count_records ms"
  by (induction ms n rule: checkActiveCount_loop.induct) (auto simp: count_records_def)

lemma count_update:
  "map_of ms i = Some m \<Longrightarrow> distinct (map fst ms) \<Longrightarrow>
   count_records (AList.update i m' ms) = count_records ms - active_flag m + active_flag m'"
proof (induction ms)
  case Nil
  then show ?case by simp
next
  case (Cons a ms)
  obtain j r where a: "a = (j, r)" by (cases a)
  show ?case
  proof (cases "j = i")
    case True
    with Cons.prems a show ?thesis by (auto simp: active_flag_def count_records_def)
  next
    case False
    with Cons a show ?thesis by (auto simp: active_flag_def count_records_def)
  qed
qed

lemma count_update_new:
  "map_of ms i = None \<Longrightarrow> count_records (AList.update i m' ms) = count_records ms + active_flag m'"
  by (induction ms) (auto simp: active_flag_def count_records_def split: if_splits)

lemma count_delete:
  "map_of ms i = Some m \<Longrightarrow> distinct (map fst ms) \<Longrightarrow>
   count_records (AList.delete i ms) = count_records ms - active_flag m"
proof (induction ms)
  case Nil
  then show ?case by simp
next
  case (Cons a ms)
  obtain j r where a: "a = (j, r)" by (cases a)
  show ?case
  proof (cases "j = i")
    case True
    with Cons.prems a have "AList.delete i ms = ms"
      by (simp add: delete_id)
    with True Cons.prems a show ?thesis by (auto simp: active_flag_def count_records_def)
  next
    case False
    with Cons a show ?thesis by (auto simp: active_flag_def count_records_def)
  qed
qed

lemma incrementActiveCount_result:
  assumes "dbg \<Longrightarrow> c_activeCount s + 1 = count_records (c_methods s)"
  shows "incrementActiveCount dbg s =
           Returns (if c_enabled s \<and> c_activeCount s = 0
                    then emit EvActive (s\<lparr>c_activeCount := c_activeCount s + 1\<rparr>)
                    else s\<lparr>c_activeCount := c_activeCount s + 1\<rparr>)"
  using assms
  by (cases dbg) (auto simp: incrementActiveCount_def checkActiveCount_def Let_def
        checkActiveCount_loop_count emit_def)

lemma decrementActiveCount_result:
  assumes "dbg \<Longrightarrow> c_activeCount s - 1 = count_records (c_methods s)"
  shows "decrementActiveCount dbg s =
           Returns (if c_enabled s \<and> c_activeCount s = 1
                    then emit EvInactive (s\<lparr>c_activeCount := c_activeCount s - 1\<rparr>)
                    else s\<lparr>c_activeCount := c_activeCount s - 1\<rparr>)"
  using assms
  by (cases dbg) (auto simp: decrementActiveCount_def checkActiveCount_def Let_def
        checkActiveCount_loop_count emit_def)

lemma enableMethod_result:
  assumes "map_of (c_methods s) i = Some m" "\<not> m_enabled m" "count_ok s"
  shows "enableMethod dbg i s =
     Returns (emit (EvMethodEnabled i) (updateComposer
       ((if m_active m \<and> c_enabled s \<and> c_activeCount s = 0 then emit EvActive else id)
        (s\<lparr>c_methods := AList.update i (m\<lparr>m_enabled := True\<rparr>) (c_methods s),
           c_activeCount := c_activeCount s + (if m_active m then 1 else 0),
           c_listeners := c_listeners s @ [(m_instance m, SigActive, i), (m_instance m, SigInactive, i)]\<rparr>))))"
proof (cases "m_active m")
  case True
  let ?s1 = "set_record i (m\<lparr>m_enabled := True\<rparr>) s"
  have "c_activeCount ?s1 + 1 = count_records (c_methods ?s1)"
    using assms True by (simp add: set_record_def count_ok_def count_update active_flag_def)
  then have "incrementActiveCount dbg ?s1 =
           Returns (if c_enabled ?s1 \<and> c_activeCount ?s1 = 0
                    then emit EvActive (?s1\<lparr>c_activeCount := c_activeCount ?s1 + 1\<rparr>)
                    else ?s1\<lparr>c_activeCount := c_activeCount ?s1 + 1\<rparr>)"
    by (rule incrementActiveCount_result)
  with assms True show ?thesis
    by (simp add: enableMethod_def Let_def listen_def set_record_def update_conv' emit_def updateComposer_def)
next
  case False
  with assms show ?thesis
    by (simp add: enableMethod_def Let_def listen_def set_record_def update_conv' emit_def updateComposer_def)
qed

lemma disableMethod_result:
  assumes "map_of (c_methods s) i = Some m" "m_enabled m" "count_ok s"
  shows "disableMethod dbg i s =
     Returns (emit (EvMethodDisabled i) (updateComposer
       ((if m_active m \<and> c_enabled s \<and> c_activeCount s = 1 then emit EvInactive else id)
        (s\<lparr>c_methods := AList.update i (m\<lparr>m_enabled := False\<rparr>) (c_methods s),
           c_activeCount := c_activeCount s - (if m_active m then 1 else 0),
           c_listeners := remove1 (m_instance m, SigInactive, i)
                            (remove1 (m_instance m, SigActive, i) (c_listeners s))\<rparr>))))"
proof (cases "m_active m")
  case True
  let ?s1 = "set_record i (m\<lparr>m_enabled := False\<rparr>) s"
  have "c_activeCount ?s1 - 1 = count_records (c_methods ?s1)"
    using assms True by (simp add: set_record_def count_ok_def count_update active_flag_def)
  then have "decrementActiveCount dbg ?s1 =
           Returns (if c_enabled ?s1 \<and> c_activeCount ?s1 = 1
                    then emit EvInactive (?s1\<lparr>c_activeCount := c_activeCount ?s1 - 1\<rparr>)
                    else ?s1\<lparr>c_activeCount := c_activeCount ?s1 - 1\<rparr>)"
    by (rule decrementActiveCount_result)
  with assms True show ?thesis
    by (simp add: disableMethod_def Let_def unlisten_def set_record_def update_conv' emit_def updateComposer_def)
next
  case False
  with assms show ?thesis
    by (simp add: disableMethod_def Let_def unlisten_def set_record_def update_conv' emit_def updateComposer_def)
qed

lemma handleActive_result:
  assumes "map_of (c_methods s) i = Some m" "m_enabled m" "\<not> m_active m" "count_ok s"
  shows "handleActive dbg i s =
     Returns ((if c_enabled s \<and> c_activeCount s = 0 then emit EvActive else id)
        (s\<lparr>c_methods := AList.update i (m\<lparr>m_active := True\<rparr>) (c_methods s),
           c_activeCount := c_activeCount s + 1\<rparr>))"
proof -
  let ?s1 = "set_record i (m\<lparr>m_active := True\<rparr>) s"
  have "c_activeCount ?s1 + 1 = count_records (c_methods ?s1)"
    using assms by (simp add: set_record_def count_ok_def count_update active_flag_def)
  then have "incrementActiveCount dbg ?s1 =
           Returns (if c_enabled ?s1 \<and> c_activeCount ?s1 = 0
                    then emit EvActive (?s1\<lparr>c_activeCount := c_activeCount ?s1 + 1\<rparr>)
                    else ?s1\<lparr>c_activeCount := c_activeCount ?s1 + 1\<rparr>)"
    by (rule incrementActiveCount_result)
  with assms show ?thesis
    by (simp add: handleActive_def set_record_def emit_def)
qed

lemma handleInactive_result:
  assumes "map_of (c_methods s) i = Some m" "m_enabled m" "m_active m" "count_ok s"
  shows "handleInactive dbg i s =
     Returns ((if c_enabled s \<and> c_activeCount s = 1 then emit EvInactive else id)
        (s\<lparr>c_methods := AList.update i (m\<lparr>m_active := False\<rparr>) (c_methods s),
           c_activeCount := c_activeCount s - 1\<rparr>))"
proof -
  let ?s1 = "set_record i (m\<lparr>m_active := False\<rparr>) s"
  have "c_activeCount ?s1 - 1 = count_records (c_methods ?s1)"
    using assms by (simp add: set_record_def count_ok_def count_update active_flag_def)
  then have "decrementActiveCount dbg ?s1 =
           Returns (if c_enabled ?s1 \<and> c_activeCount ?s1 = 1
                    then emit EvInactive (?s1\<lparr>c_activeCount := c_activeCount ?s1 - 1\<rparr>)
                    else ?s1\<lparr>c_activeCount := c_activeCount ?s1 - 1\<rparr>)"
    by (rule decrementActiveCount_result)
  with assms show ?thesis
    by (simp add: handleInactive_def set_record_def emit_def)
qed

lemma count_ok_emit [simp]: "count_ok (emit e s) = count_ok s"
  by (simp add: count_ok_def emit_def)

lemma count_ok_updateComposer [simp]: "count_ok (updateComposer s) = count_ok s"
  by (simp add: count_ok_def updateComposer_def)

lemma count_ok_enableMethod: "count_ok s \<Longrightarrow> count_ok (state_of (enableMethod dbg i s))"
proof (cases "map_of (c_methods s) i")
  case None
  assume "count_ok s"
  with None show ?thesis by (simp add: enableMethod_def)
next
  case (Some m)
  assume ok: "count_ok s"
  show ?thesis
  proof (cases "m_enabled m")
    case True
    with Some ok show ?thesis by (simp add: enableMethod_def)
  next
    case False
    from ok Some False show ?thesis
      by (simp add: enableMethod_result [OF Some False ok])
         (simp add: count_ok_def count_update active_flag_def distinct_update)
  qed
qed

lemma count_ok_disableMethod: "count_ok s \<Longrightarrow> count_ok (state_of (disableMethod dbg i s))"
proof (cases "map_of (c_methods s) i")
  case None
  assume "count_ok s"
  with None show ?thesis by (simp add: disableMethod_def)
next
  case (Some m)
  assume ok: "count_ok s"
  show ?thesis
  proof (cases "m_enabled m")
    case False
    with Some ok show ?thesis by (simp add: disableMethod_def)
  next
    case True
    from ok Some True show ?thesis
      by (simp add: disableMethod_result [OF Some True ok])
         (simp add: count_ok_def count_update active_flag_def distinct_update)
  qed
qed

lemma count_ok_handleActive: "count_ok s \<Longrightarrow> count_ok (state_of (handleActive dbg i s))"
proof (cases "map_of (c_methods s) i")
  case None
  assume "count_ok s"
  with None show ?thesis by (simp add: handleActive_def)
next
  case (Some m)
  assume ok: "count_ok s"
  show ?thesis
  proof (cases "m_enabled m \<and> \<not> m_active m")
    case False
    with Some ok show ?thesis by (auto simp add: handleActive_def)
  next
    case True
    then have e: "m_enabled m" and a: "\<not> m_active m" by simp_all
    from ok Some e a show ?thesis
      by (simp add: handleActive_result [OF Some e a ok])
         (simp add: count_ok_def count_update active_flag_def distinct_update)
  qed
qed

lemma count_ok_handleInactive: "count_ok s \<Longrightarrow> count_ok (state_of (handleInactive dbg i s))"
proof (cases "map_of (c_methods s) i")
  case None
  assume "count_ok s"
  with None show ?thesis by (simp add: handleInactive_def)
next
  case (Some m)
  assume ok: "count_ok s"
  show ?thesis
  proof (cases "m_enabled m \<and> m_active m")
    case False
    with Some ok show ?thesis by (auto simp add: handleInactive_def)
  next
    case True
    then have e: "m_enabled m" and a: "m_active m" by simp_all
    from ok Some e a show ?thesis
      by (simp add: handleInactive_result [OF Some e a ok])
         (simp add: count_ok_def count_update active_flag_def distinct_update)
  qed
qed

lemma count_ok_registerMethod:
  assumes ok: "count_ok s"
  shows "count_ok (state_of (registerMethod dbg i x e s))"
proof (cases "map_of (c_methods s) i")
  case (Some m)
  with ok show ?thesis by (simp add: registerMethod_def)
next
  case None
  let ?s1 = "set_record i \<lparr>m_instance = x, m_enabled = False, m_active = False\<rparr> s"
  have "count_ok ?s1"
    using ok None
    by (simp add: count_ok_def set_record_def count_update_new active_flag_def distinct_update)
  then have "count_ok (state_of (enableMethod dbg i ?s1))"
    by (rule count_ok_enableMethod)
  with None \<open>count_ok ?s1\<close> show ?thesis
    by (simp add: registerMethod_def Let_def)
qed

lemma count_ok_delete_disabled:
  assumes "count_ok s" "map_of (c_methods s) i = Some m" "\<not> m_enabled m"
  shows "count_ok (s\<lparr>c_methods := AList.delete i (c_methods s)\<rparr>)"
  using assms by (simp add: count_ok_def count_delete active_flag_def distinct_delete)

lemma count_ok_unregisterMethod:
  assumes ok: "count_ok s"
  shows "count_ok (state_of (unregisterMethod dbg i s))"
proof (cases "map_of (c_methods s) i")
  case None
  with ok show ?thesis by (simp add: unregisterMethod_def)
next
  case (Some m)
  show ?thesis
  proof (cases "m_enabled m")
    case False
    with Some ok show ?thesis
      by (simp add: unregisterMethod_def count_ok_delete_disabled)
  next
    case True
    let ?s' = "state_of (disableMethod dbg i s)"
    have ok': "count_ok ?s'" using ok by (rule count_ok_disableMethod)
    have m': "map_of (c_methods ?s') i = Some (m\<lparr>m_enabled := False\<rparr>)"
      by (simp add: disableMethod_result [OF Some True ok] emit_def updateComposer_def update_conv')
    have "count_ok (?s'\<lparr>c_methods := AList.delete i (c_methods ?s')\<rparr>)"
      by (rule count_ok_delete_disabled [OF ok' m']) simp
    then show ?thesis
      using Some True by (simp add: unregisterMethod_def disableMethod_result [OF Some True ok])
  qed
qed

lemma count_ok_forEach:
  assumes f: "\<And>i s. count_ok s \<Longrightarrow> count_ok (state_of (f i s))"
  shows "count_ok s \<Longrightarrow> count_ok (state_of (forEach ids f s))"
proof (induction ids arbitrary: s)
  case Nil
  then show ?case by simp
next
  case (Cons i ids)
  from Cons.prems have "count_ok (state_of (f i s))" by (rule f)
  then show ?case
    using Cons.IH by (cases "f i s") simp_all
qed

lemma count_ok_step: "count_ok s \<Longrightarrow> count_ok (state_of (step dbg op s))"
proof (cases op)
  case (EnableMethodGroup g)
  assume "count_ok s"
  then show ?thesis using EnableMethodGroup
    by (simp add: enableMethodGroup_def count_ok_forEach count_ok_enableMethod split: option.splits)
next
  case (DisableMethodGroup g)
  assume "count_ok s"
  then show ?thesis using DisableMethodGroup
    by (simp add: disableMethodGroup_def count_ok_forEach count_ok_disableMethod split: option.splits)
next
  case Enable
  assume "count_ok s"
  then show ?thesis using Enable by (simp add: enable_def Let_def) (simp add: count_ok_def)
next
  case Disable
  assume "count_ok s"
  then show ?thesis using Disable by (simp add: disable_def Let_def) (simp add: count_ok_def)
next
  case (AddMethodGroup g ids)
  assume "count_ok s"
  then show ?thesis using AddMethodGroup by (simp add: addMethodGroup_def count_ok_def)
next
  case (RemoveMethodGroup g)
  assume "count_ok s"
  then show ?thesis using RemoveMethodGroup by (simp add: removeMethodGroup_def count_ok_def)
qed (simp_all add: count_ok_registerMethod count_ok_unregisterMethod count_ok_enableMethod
       count_ok_disableMethod count_ok_handleActive count_ok_handleInactive)

lemma count_ok_run: "count_ok s \<Longrightarrow> count_ok (run dbg ops s)"
  by (induction ops arbitrary: s) (simp_all add: count_ok_step)

lemma count_ok_constructor: "count_ok (constructor opts)"
  by (simp add: count_ok_def constructor_def Let_def count_records_def)

text \<open>C1: for every sequence of operations on a newly constructed engine, also with
  activity signals delivered to its records, after each operation the field
  \<open>_activeCount\<close> equals the number of registration records whose \<open>enabled\<close> and
  \<open>active\<close> flags are both true.\<close>

theorem activeCount_invariant:
  "c_activeCount (run dbg ops (constructor opts))
     = int (enabled_active_records (run dbg ops (constructor opts)))"
  using count_ok_run [OF count_ok_constructor, of dbg ops opts]
  by (simp add: count_ok_def count_records_def enabled_active_records_def)

subsection \<open>Evaluation of the model on concrete inputs\<close>

lemmas eval_defs = constructor_def registerMethod_def enableMethod_def disableMethod_def
  unregisterMethod_def handleActive_def handleInactive_def incrementActiveCount_def
  decrementActiveCount_def checkActiveCount_def listen_def unlisten_def set_record_def
  updateComposer_def emit_def composer_has_def composer_add_def composer_remove_def
  enable_def disable_def enableMethodGroup_def disableMethodGroup_def addMethodGroup_def
  removeMethodGroup_def new_events_def keyboard_and_touch_def Let_def

subsection \<open>Emission of the aggregate signals\<close>

lemma count_ok_nonneg: "count_ok s \<Longrightarrow> 0 \<le> c_activeCount s"
  by (simp add: count_ok_def count_records_def)

lemma rises_refl: "count_ok s \<Longrightarrow> rises s s"
  by (simp add: rises_def)

lemma falls_refl: "count_ok s \<Longrightarrow> falls s s"
  using count_ok_nonneg [of s] by (auto simp: falls_def)

lemma rises_trans:
  assumes "count_ok s" "rises s s1" "rises s1 s2"
  shows "rises s s2"
proof -
  from assms(2) obtain e1 where e1: "c_emitted s1 = c_emitted s @ e1" "EvInactive \<notin> set e1"
    "count_list e1 EvActive = (if c_enabled s \<and> c_activeCount s = 0 \<and> 1 \<le> c_activeCount s1 then 1 else 0)"
    by (auto simp: rises_def)
  from assms(3) obtain e2 where e2: "c_emitted s2 = c_emitted s1 @ e2" "EvInactive \<notin> set e2"
    "count_list e2 EvActive = (if c_enabled s1 \<and> c_activeCount s1 = 0 \<and> 1 \<le> c_activeCount s2 then 1 else 0)"
    by (auto simp: rises_def)
  have en: "c_enabled s1 = c_enabled s" "c_enabled s2 = c_enabled s"
    and le: "c_activeCount s \<le> c_activeCount s1" "c_activeCount s1 \<le> c_activeCount s2"
    and ok: "count_ok s2"
    using assms(2,3) by (auto simp: rises_def)
  have nn: "0 \<le> c_activeCount s" using assms(1) by (rule count_ok_nonneg)
  have "c_emitted s2 = c_emitted s @ (e1 @ e2)" using e1 e2 by simp
  moreover have "EvInactive \<notin> set (e1 @ e2)" using e1 e2 by simp
  moreover have "count_list (e1 @ e2) EvActive =
      (if c_enabled s \<and> c_activeCount s = 0 \<and> 1 \<le> c_activeCount s2 then 1 else 0)"
    using e1(3) e2(3) en le nn by (auto split: if_splits)
  ultimately show ?thesis
    using en le ok unfolding rises_def by (intro conjI exI [of _ "e1 @ e2"]) auto
qed

lemma falls_trans:
  assumes "count_ok s2" "falls s s1" "falls s1 s2"
  shows "falls s s2"
proof -
  from assms(2) obtain e1 where e1: "c_emitted s1 = c_emitted s @ e1" "EvActive \<notin> set e1"
    "count_list e1 EvInactive = (if c_enabled s \<and> 1 \<le> c_activeCount s \<and> c_activeCount s1 = 0 then 1 else 0)"
    by (auto simp: falls_def)
  from assms(3) obtain e2 where e2: "c_emitted s2 = c_emitted s1 @ e2" "EvActive \<notin> set e2"
    "count_list e2 EvInactive = (if c_enabled s1 \<and> 1 \<le> c_activeCount s1 \<and> c_activeCount s2 = 0 then 1 else 0)"
    by (auto simp: falls_def)
  have en: "c_enabled s1 = c_enabled s" "c_enabled s2 = c_enabled s"
    and le: "c_activeCount s1 \<le> c_activeCount s" "c_activeCount s2 \<le> c_activeCount s1"
    and ok: "count_ok s2"
    using assms(2,3) by (auto simp: falls_def)
  have nn: "0 \<le> c_activeCount s2" using assms(1) by (rule count_ok_nonneg)
  have "c_emitted s2 = c_emitted s @ (e1 @ e2)" using e1 e2 by simp
  moreover have "EvActive \<notin> set (e1 @ e2)" using e1 e2 by simp
  moreover have "count_list (e1 @ e2) EvInactive =
      (if c_enabled s \<and> 1 \<le> c_activeCount s \<and> c_activeCount s2 = 0 then 1 else 0)"
    using e1(3) e2(3) en le nn by (auto split: if_splits)
  ultimately show ?thesis
    using en le ok unfolding falls_def by (intro conjI exI [of _ "e1 @ e2"]) auto
qed

lemma rises_enableMethod:
  assumes ok: "count_ok s"
  shows "rises s (state_of (enableMethod dbg i s))"
proof (cases "map_of (c_methods s) i")
  case None
  with ok show ?thesis by (simp add: enableMethod_def rises_refl)
next
  case (Some m)
  show ?thesis
  proof (cases "m_enabled m")
    case True
    with Some ok show ?thesis by (simp add: enableMethod_def rises_refl)
  next
    case False
    have ok': "count_ok (state_of (enableMethod dbg i s))" using ok by (rule count_ok_enableMethod)
    show ?thesis
      using ok' count_ok_nonneg [OF ok] unfolding rises_def
      by (simp add: enableMethod_result [OF Some False ok] emit_def updateComposer_def)
  qed
qed

lemma falls_disableMethod:
  assumes ok: "count_ok s"
  shows "falls s (state_of (disableMethod dbg i s))"
proof (cases "map_of (c_methods s) i")
  case None
  with ok show ?thesis by (simp add: disableMethod_def falls_refl)
next
  case (Some m)
  show ?thesis
  proof (cases "m_enabled m")
    case False
    with Some ok show ?thesis by (simp add: disableMethod_def falls_refl)
  next
    case True
    have ok': "count_ok (state_of (disableMethod dbg i s))" using ok by (rule count_ok_disableMethod)
    show ?thesis
      using ok' count_ok_nonneg [OF ok'] unfolding falls_def
      by (simp add: disableMethod_result [OF Some True ok] emit_def updateComposer_def)
  qed
qed

lemma rises_handleActive:
  assumes ok: "count_ok s"
  shows "rises s (state_of (handleActive dbg i s))"
proof (cases "map_of (c_methods s) i")
  case None
  with ok show ?thesis by (simp add: handleActive_def rises_refl)
next
  case (Some m)
  show ?thesis
  proof (cases "m_enabled m \<and> \<not> m_active m")
    case False
    with Some ok show ?thesis by (auto simp add: handleActive_def rises_refl)
  next
    case True
    then have e: "m_enabled m" and a: "\<not> m_active m" by simp_all
    have ok': "count_ok (state_of (handleActive dbg i s))" using ok by (rule count_ok_handleActive)
    show ?thesis
      using ok' count_ok_nonneg [OF ok] unfolding rises_def
      by (simp add: handleActive_result [OF Some e a ok] emit_def)
  qed
qed

lemma falls_handleInactive:
  assumes ok: "count_ok s"
  shows "falls s (state_of (handleInactive dbg i s))"
proof (cases "map_of (c_methods s) i")
  case None
  with ok show ?thesis by (simp add: handleInactive_def falls_refl)
next
  case (Some m)
  show ?thesis
  proof (cases "m_enabled m \<and> m_active m")
    case False
    with Some ok show ?thesis by (auto simp add: handleInactive_def falls_refl)
  next
    case True
    then have e: "m_enabled m" and a: "m_active m" by simp_all
    have ok': "count_ok (state_of (handleInactive dbg i s))" using ok by (rule count_ok_handleInactive)
    show ?thesis
      using ok' count_ok_nonneg [OF ok'] unfolding falls_def
      by (simp add: handleInactive_result [OF Some e a ok] emit_def)
  qed
qed

lemma rises_same:
  "rises s s1 \<Longrightarrow> count_ok s2 \<Longrightarrow> c_emitted s2 = c_emitted s1 \<Longrightarrow> c_enabled s2 = c_enabled s1
    \<Longrightarrow> c_activeCount s2 = c_activeCount s1 \<Longrightarrow> rises s s2"
  by (simp add: rises_def)

lemma falls_same:
  "falls s s1 \<Longrightarrow> count_ok s2 \<Longrightarrow> c_emitted s2 = c_emitted s1 \<Longrightarrow> c_enabled s2 = c_enabled s1
    \<Longrightarrow> c_activeCount s2 = c_activeCount s1 \<Longrightarrow> falls s s2"
  by (simp add: falls_def)

lemma rises_registerMethod:
  assumes ok: "count_ok s"
  shows "rises s (state_of (registerMethod dbg i x e s))"
proof (cases "map_of (c_methods s) i")
  case (Some m)
  with ok show ?thesis by (simp add: registerMethod_def rises_refl)
next
  case None
  let ?s1 = "set_record i \<lparr>m_instance = x, m_enabled = False, m_active = False\<rparr> s"
  have ok1: "count_ok ?s1"
    using ok None
    by (simp add: count_ok_def set_record_def count_update_new active_flag_def distinct_update)
  have r1: "rises s ?s1"
    by (rule rises_same [OF rises_refl [OF ok] ok1]) (simp_all add: set_record_def)
  have "rises ?s1 (state_of (enableMethod dbg i ?s1))"
    using ok1 by (rule rises_enableMethod)
  with r1 have "rises s (state_of (enableMethod dbg i ?s1))"
    by (rule rises_trans [OF ok])
  with None r1 show ?thesis
    by (simp add: registerMethod_def Let_def)
qed

lemma falls_unregisterMethod:
  assumes ok: "count_ok s"
  shows "falls s (state_of (unregisterMethod dbg i s))"
proof (cases "map_of (c_methods s) i")
  case None
  with ok show ?thesis by (simp add: unregisterMethod_def falls_refl)
next
  case (Some m)
  have ok': "count_ok (state_of (unregisterMethod dbg i s))"
    using ok by (rule count_ok_unregisterMethod)
  show ?thesis
  proof (cases "m_enabled m")
    case False
    show ?thesis
      by (rule falls_same [OF falls_refl [OF ok] ok'])
         (simp_all add: unregisterMethod_def Some False)
  next
    case True
    have f: "falls s (state_of (disableMethod dbg i s))" using ok by (rule falls_disableMethod)
    show ?thesis
      by (rule falls_same [OF f ok'])
         (simp_all add: unregisterMethod_def Some True disableMethod_result [OF Some True ok])
  qed
qed

lemma rises_count_ok: "rises s s' \<Longrightarrow> count_ok s'"
  by (simp add: rises_def)

lemma falls_count_ok: "falls s s' \<Longrightarrow> count_ok s'"
  by (simp add: falls_def)

lemma rises_forEach:
  assumes f: "\<And>i s. count_ok s \<Longrightarrow> rises s (state_of (f i s))"
  shows "count_ok s \<Longrightarrow> rises s (state_of (forEach ids f s))"
proof (induction ids arbitrary: s)
  case Nil
  then show ?case by (simp add: rises_refl)
next
  case (Cons i ids)
  from Cons.prems have r: "rises s (state_of (f i s))" by (rule f)
  show ?case
  proof (cases "f i s")
    case (Returns s1)
    with r have r1: "rises s s1" by simp
    then have "rises s1 (state_of (forEach ids f s1))"
      by (intro Cons.IH rises_count_ok)
    with r1 have "rises s (state_of (forEach ids f s1))"
      by (rule rises_trans [OF Cons.prems])
    with Returns show ?thesis by simp
  next
    case (Throws e s1)
    with r show ?thesis by simp
  qed
qed

lemma falls_forEach:
  assumes f: "\<And>i s. count_ok s \<Longrightarrow> falls s (state_of (f i s))"
  shows "count_ok s \<Longrightarrow> falls s (state_of (forEach ids f s))"
proof (induction ids arbitrary: s)
  case Nil
  then show ?case by (simp add: falls_refl)
next
  case (Cons i ids)
  from Cons.prems have r: "falls s (state_of (f i s))" by (rule f)
  show ?case
  proof (cases "f i s")
    case (Returns s1)
    with r have r1: "falls s s1" by simp
    then have r2: "falls s1 (state_of (forEach ids f s1))"
      by (intro Cons.IH falls_count_ok)
    have "falls s (state_of (forEach ids f s1))"
      by (rule falls_trans [OF falls_count_ok [OF r2] r1 r2])
    with Returns show ?thesis by simp
  next
    case (Throws e s1)
    with r show ?thesis by simp
  qed
qed

lemma step_rises_or_falls:
  assumes ok: "count_ok s"
  shows "rises s (state_of (step dbg op s)) \<or> falls s (state_of (step dbg op s))
         \<or> c_activeCount (state_of (step dbg op s)) = c_activeCount s"
proof (cases op)
  case (EnableMethodGroup g)
  have "rises s (state_of (enableMethodGroup dbg g s))"
    using ok by (simp add: enableMethodGroup_def rises_forEach rises_enableMethod rises_refl
                      split: option.splits)
  with EnableMethodGroup show ?thesis by simp
next
  case (DisableMethodGroup g)
  have "falls s (state_of (disableMethodGroup dbg g s))"
    using ok by (simp add: disableMethodGroup_def falls_forEach falls_disableMethod falls_refl
                      split: option.splits)
  with DisableMethodGroup show ?thesis by simp
next
  case Enable
  then show ?thesis by (simp add: enable_def Let_def emit_def updateComposer_def)
next
  case Disable
  then show ?thesis by (simp add: disable_def Let_def emit_def updateComposer_def)
next
  case (AddMethodGroup g ids)
  then show ?thesis by (simp add: addMethodGroup_def)
next
  case (RemoveMethodGroup g)
  then show ?thesis by (simp add: removeMethodGroup_def)
qed (simp_all add: ok rises_registerMethod falls_unregisterMethod rises_enableMethod
       falls_disableMethod rises_handleActive falls_handleInactive)

lemma rises_events:
  assumes "rises s s'"
  shows "count_list (new_events s s') EvInactive = 0"
    and "count_list (new_events s s') EvActive =
           (if c_enabled s \<and> c_activeCount s = 0 \<and> 1 \<le> c_activeCount s' then 1 else 0)"
    and "c_activeCount s \<le> c_activeCount s'"
  using assms by (auto simp: rises_def new_events_def)

lemma falls_events:
  assumes "falls s s'"
  shows "count_list (new_events s s') EvActive = 0"
    and "count_list (new_events s s') EvInactive =
           (if c_enabled s \<and> 1 \<le> c_activeCount s \<and> c_activeCount s' = 0 then 1 else 0)"
    and "c_activeCount s' \<le> c_activeCount s"
  using assms by (auto simp: falls_def new_events_def)

text \<open>C3: take any state the engine can reach and any single call on it. If the call
  takes \<open>_activeCount\<close> from 0 to 1 while the engine is enabled, exactly one \<open>active\<close>
  event (and no \<open>inactive\<close>) is emitted; if it takes the count from 1 to 0 while the engine
  is enabled, exactly one \<open>inactive\<close> event (and no \<open>active\<close>) is emitted; if it changes
  the count between two values that are both at least 1, neither event is emitted.\<close>

theorem activity_transitions:
  assumes "s = run dbg ops (constructor opts)" and "s' = state_of (step dbg op s)"
  shows "(c_enabled s \<and> c_activeCount s = 0 \<and> c_activeCount s' = 1 \<longrightarrow>
            count_list (new_events s s') EvActive = 1 \<and>
            count_list (new_events s s') EvInactive = 0) \<and>
         (c_enabled s \<and> c_activeCount s = 1 \<and> c_activeCount s' = 0 \<longrightarrow>
            count_list (new_events s s') EvInactive = 1 \<and>
            count_list (new_events s s') EvActive = 0) \<and>
         (1 \<le> c_activeCount s \<and> 1 \<le> c_activeCount s' \<and> c_activeCount s' \<noteq> c_activeCount s \<longrightarrow>
            count_list (new_events s s') EvActive = 0 \<and>
            count_list (new_events s s') EvInactive = 0)"
proof -
  have ok: "count_ok s"
    unfolding assms(1) by (rule count_ok_run [OF count_ok_constructor])
  from step_rises_or_falls [OF ok, of dbg op]
  consider (up) "rises s s'" | (down) "falls s s'" | (same) "c_activeCount s' = c_activeCount s"
    unfolding assms(2) by blast
  then show ?thesis
  proof cases
    case up
    from rises_events [OF up] show ?thesis by auto
  next
    case down
    from falls_events [OF down] show ?thesis by auto
  next
    case same
    then show ?thesis by simp
  qed
qed

theorem activity_transitions_witness:
  "c_enabled (run True keyboard_and_touch (constructor None)) \<and>
   c_activeCount (run True keyboard_and_touch (constructor None)) = 0 \<and>
   c_activeCount (state_of (step True (HandleActive ''keyboard'')
      (run True keyboard_and_touch (constructor None)))) = 1 \<and>
   count_list
     (new_events (run True keyboard_and_touch (constructor None))
        (state_of (step True (HandleActive ''keyboard'')
           (run True keyboard_and_touch (constructor None))))) EvActive = 1 \<and>
   c_activeCount (run True (keyboard_and_touch @ [HandleActive ''keyboard''])
      (constructor None)) = 1 \<and>
   c_activeCount (state_of (step True (HandleActive ''touch'')
      (run True (keyboard_and_touch @ [HandleActive ''keyboard''])
         (constructor None)))) = 2 \<and>
   count_list
     (new_events (run True (keyboard_and_touch @ [HandleActive ''keyboard'']) (constructor None))
        (state_of (step True (HandleActive ''touch'')
           (run True (keyboard_and_touch @ [HandleActive ''keyboard''])
              (constructor None))))) EvActive = 0 \<and>
   c_activeCount (run True (keyboard_and_touch @
      [HandleActive ''keyboard'', HandleActive ''touch'', DisableMethod ''keyboard''])
      (constructor None)) = 1 \<and>
   c_activeCount (state_of (step True (DisableMethod ''touch'')
      (run True (keyboard_and_touch @
         [HandleActive ''keyboard'', HandleActive ''touch'', DisableMethod ''keyboard''])
         (constructor None)))) = 0 \<and>
   count_list
     (new_events
        (run True (keyboard_and_touch @
           [HandleActive ''keyboard'', HandleActive ''touch'', DisableMethod ''keyboard''])
           (constructor None))
        (state_of (step True (DisableMethod ''touch'')
           (run True (keyboard_and_touch @
              [HandleActive ''keyboard'', HandleActive ''touch'', DisableMethod ''keyboard''])
              (constructor None))))) EvInactive = 1"
  using activity_transitions [OF refl refl, of True keyboard_and_touch None
          "HandleActive ''keyboard''"]
        activity_transitions [OF refl refl, of True
          "keyboard_and_touch @ [HandleActive ''keyboard'']" None "HandleActive ''touch''"]
        activity_transitions [OF refl refl, of True
          "keyboard_and_touch @
             [HandleActive ''keyboard'', HandleActive ''touch'', DisableMethod ''keyboard'']"
          None "DisableMethod ''touch''"]
  by (simp add: eval_defs)

text \<open>The gate \<open>this._enabled\<close> in \<open>_incrementActiveCount\<close> and
  \<open>_decrementActiveCount\<close>: while the engine is disabled, a call that changes the count
  emits neither \<open>active\<close> nor \<open>inactive\<close>.\<close>

lemma transitions_silent_while_disabled:
  assumes "s = run dbg ops (constructor opts)" and "s' = state_of (step dbg op s)"
    and "\<not> c_enabled s" and "c_activeCount s' \<noteq> c_activeCount s"
  shows "count_list (new_events s s') EvActive = 0 \<and>
         count_list (new_events s s') EvInactive = 0"
proof -
  have ok: "count_ok s"
    unfolding assms(1) by (rule count_ok_run [OF count_ok_constructor])
  from step_rises_or_falls [OF ok, of dbg op] assms(4)
  consider (up) "rises s s'" | (down) "falls s s'"
    unfolding assms(2) by blast
  then show ?thesis
  proof cases
    case up
    from rises_events [OF up] assms(3) show ?thesis by simp
  next
    case down
    from falls_events [OF down] assms(3) show ?thesis by simp
  qed
qed

text \<open>C5: in any state the engine can reach, \<open>enableMethod\<close> on a registered, disabled
  id returns, and it increments \<open>_activeCount\<close> exactly when the record's \<open>active\<close> flag,
  kept from before, is true. With the flag false the count is unchanged and the only
  event emitted is \<open>methodEnabled\<close>; \<open>active\<close> is emitted only when the flag is true, the
  engine is enabled and the count was 0.\<close>

theorem enableMethod_sticky_active:
  assumes "s = run dbg ops (constructor opts)"
    and "map_of (c_methods s) i = Some m" and "\<not> m_enabled m"
  shows "returned (enableMethod dbg i s) \<and>
         c_activeCount (state_of (enableMethod dbg i s))
           = c_activeCount s + (if m_active m then 1 else 0) \<and>
         new_events s (state_of (enableMethod dbg i s))
           = (if m_active m \<and> c_enabled s \<and> c_activeCount s = 0 then [EvActive] else [])
             @ [EvMethodEnabled i]"
proof -
  have ok: "count_ok s"
    unfolding assms(1) by (rule count_ok_run [OF count_ok_constructor])
  show ?thesis
    by (simp add: enableMethod_result [OF assms(2,3) ok] emit_def updateComposer_def new_events_def)
qed

theorem enableMethod_sticky_active_witness:
  "map_of (c_methods (run True [RegisterMethod ''keyboard'' 1 True, HandleActive ''keyboard'',
                 DisableMethod ''keyboard''] (constructor None))) ''keyboard''
     = Some \<lparr>m_instance = 1, m_enabled = False, m_active = True\<rparr> \<and>
   returned (enableMethod True ''keyboard''
      (run True [RegisterMethod ''keyboard'' 1 True, HandleActive ''keyboard'',
                 DisableMethod ''keyboard''] (constructor None))) \<and>
   c_activeCount (run True [RegisterMethod ''keyboard'' 1 True, HandleActive ''keyboard'',
                 DisableMethod ''keyboard''] (constructor None)) = 0 \<and>
   c_activeCount (state_of (enableMethod True ''keyboard''
      (run True [RegisterMethod ''keyboard'' 1 True, HandleActive ''keyboard'',
                 DisableMethod ''keyboard''] (constructor None)))) = 1 \<and>
   c_activeCount (state_of (enableMethod True ''touch''
      (run True [RegisterMethod ''touch'' 2 False] (constructor None)))) = 0"
  using enableMethod_sticky_active [OF refl, of True
          "[RegisterMethod ''keyboard'' 1 True, HandleActive ''keyboard'',
            DisableMethod ''keyboard'']" None "''keyboard''"
          "\<lparr>m_instance = 1, m_enabled = False, m_active = True\<rparr>"]
        enableMethod_sticky_active [OF refl, of True
          "[RegisterMethod ''touch'' 2 False]" None "''touch''"
          "\<lparr>m_instance = 2, m_enabled = False, m_active = False\<rparr>"]
  by (simp add: eval_defs)

subsection \<open>The engine-wide switch\<close>


subsection \<open>Unregistering\<close>


subsection \<open>Usage errors\<close>










subsection \<open>Composer membership\<close>

lemma updateComposer_loop_set:
  "distinct (instances ms) \<Longrightarrow>
   set (updateComposer_loop en ms c) = (set c - set (instances ms)) \<union> set (engaged en ms)"
proof (induction ms arbitrary: c)
  case Nil
  show ?case by (simp add: instances_def engaged_def)
next
  case (Cons a ms)
  obtain i m where a: "a = (i, m)" by (cases a)
  from Cons.prems a have fresh: "m_instance m \<notin> set (instances ms)"
    and d: "distinct (instances ms)"
    by (simp_all add: instances_def)
  show ?case
  proof (cases "en \<and> m_enabled m")
    case True
    let ?c2 = "if composer_has c (m_instance m) then c else composer_add c (m_instance m)"
    have c2: "set ?c2 = insert (m_instance m) (set c)"
      by (auto simp: composer_has_def composer_add_def)
    have "updateComposer_loop en (a # ms) c = updateComposer_loop en ms ?c2"
      using True a by (simp add: Let_def)
    then show ?thesis
      using Cons.IH [OF d, of ?c2] c2 True a fresh
      by (auto simp: instances_def engaged_def)
  next
    case False
    let ?c2 = "if composer_has c (m_instance m) then composer_remove c (m_instance m) else c"
    have c2: "set ?c2 = set c - {m_instance m}"
      by (auto simp: composer_has_def composer_remove_def)
    have "updateComposer_loop en (a # ms) c = updateComposer_loop en ms ?c2"
      using False a by (auto simp: Let_def)
    then show ?thesis
      using Cons.IH [OF d, of ?c2] c2 False a fresh
      by (auto simp: instances_def engaged_def)
  qed
qed

lemma engaged_subset: "set (engaged en ms) \<subseteq> set (instances ms)"
  by (auto simp: engaged_def instances_def)

lemma composer_ok_recomputed:
  assumes "count_ok s'" and "distinct (instances (c_methods s'))"
    and "set c0 \<subseteq> set (instances (c_methods s'))"
    and "c_composer s' = updateComposer_loop (c_enabled s') (c_methods s') c0"
  shows "composer_ok s'"
  using assms by (auto simp: composer_ok_def engaged_instances_def updateComposer_loop_set)

lemma composer_subset: "composer_ok s \<Longrightarrow> set (c_composer s) \<subseteq> set (instances (c_methods s))"
  using engaged_subset by (simp add: composer_ok_def engaged_instances_def)

lemma instances_update:
  "map_of ms i = Some m \<Longrightarrow> m_instance m' = m_instance m \<Longrightarrow>
   instances (AList.update i m' ms) = instances ms"
  by (induction ms) (auto simp: instances_def split: if_splits)

lemma engaged_update:
  "map_of ms i = Some m \<Longrightarrow> m_instance m' = m_instance m \<Longrightarrow> m_enabled m' = m_enabled m \<Longrightarrow>
   engaged en (AList.update i m' ms) = engaged en ms"
  by (induction ms) (auto simp: engaged_def instances_def split: if_splits)

lemma update_new: "map_of ms i = None \<Longrightarrow> AList.update i v ms = ms @ [(i, v)]"
  by (induction ms) (auto split: if_splits)

lemma filter_delete:
  "map_of ms i = Some m \<Longrightarrow> distinct (map fst ms) \<Longrightarrow> \<not> P (i, m) \<Longrightarrow>
   filter P (AList.delete i ms) = filter P ms"
proof (induction ms)
  case Nil
  then show ?case by simp
next
  case (Cons a ms)
  obtain j r where a: "a = (j, r)" by (cases a)
  show ?case
  proof (cases "j = i")
    case True
    with Cons.prems a have "AList.delete i ms = ms" by (simp add: delete_id)
    with True Cons.prems a show ?thesis by simp
  next
    case False
    with Cons a show ?thesis by simp
  qed
qed

lemma engaged_delete:
  "map_of ms i = Some m \<Longrightarrow> distinct (map fst ms) \<Longrightarrow> \<not> m_enabled m \<Longrightarrow>
   engaged en (AList.delete i ms) = engaged en ms"
  by (simp add: engaged_def filter_delete)

lemma distinct_instances_delete:
  "distinct (instances ms) \<Longrightarrow> distinct (instances (AList.delete i ms))"
  by (simp add: instances_def AList.delete_eq distinct_map_filter)

lemma composer_ok_count_ok: "composer_ok s \<Longrightarrow> count_ok s"
  by (simp add: composer_ok_def)

lemma composer_ok_enableMethod:
  assumes c: "composer_ok s"
  shows "composer_ok (state_of (enableMethod dbg i s))"
proof (cases "map_of (c_methods s) i")
  case None
  with c show ?thesis by (simp add: enableMethod_def)
next
  case (Some m)
  have ok: "count_ok s" using c by (rule composer_ok_count_ok)
  show ?thesis
  proof (cases "m_enabled m")
    case True
    with Some c show ?thesis by (simp add: enableMethod_def)
  next
    case False
    let ?s' = "state_of (enableMethod dbg i s)"
    have ms: "c_methods ?s' = AList.update i (m\<lparr>m_enabled := True\<rparr>) (c_methods s)"
      and en: "c_enabled ?s' = c_enabled s"
      and co: "c_composer ?s' = updateComposer_loop (c_enabled s)
                 (AList.update i (m\<lparr>m_enabled := True\<rparr>) (c_methods s)) (c_composer s)"
      by (simp_all add: enableMethod_result [OF Some False ok] emit_def updateComposer_def)
    have inst: "instances (c_methods ?s') = instances (c_methods s)"
      unfolding ms using Some by (simp add: instances_update)
    show ?thesis
    proof (rule composer_ok_recomputed [where ?c0.0 = "c_composer s"])
      show "count_ok ?s'" using ok by (rule count_ok_enableMethod)
      show "distinct (instances (c_methods ?s'))" using c inst by (simp add: composer_ok_def)
      show "set (c_composer s) \<subseteq> set (instances (c_methods ?s'))"
        using composer_subset [OF c] inst by simp
      show "c_composer ?s' = updateComposer_loop (c_enabled ?s') (c_methods ?s') (c_composer s)"
        using co ms en by simp
    qed
  qed
qed

lemma composer_ok_disableMethod:
  assumes c: "composer_ok s"
  shows "composer_ok (state_of (disableMethod dbg i s))"
proof (cases "map_of (c_methods s) i")
  case None
  with c show ?thesis by (simp add: disableMethod_def)
next
  case (Some m)
  have ok: "count_ok s" using c by (rule composer_ok_count_ok)
  show ?thesis
  proof (cases "m_enabled m")
    case False
    with Some c show ?thesis by (simp add: disableMethod_def)
  next
    case True
    let ?s' = "state_of (disableMethod dbg i s)"
    have ms: "c_methods ?s' = AList.update i (m\<lparr>m_enabled := False\<rparr>) (c_methods s)"
      and en: "c_enabled ?s' = c_enabled s"
      and co: "c_composer ?s' = updateComposer_loop (c_enabled s)
                 (AList.update i (m\<lparr>m_enabled := False\<rparr>) (c_methods s)) (c_composer s)"
      by (simp_all add: disableMethod_result [OF Some True ok] emit_def updateComposer_def)
    have inst: "instances (c_methods ?s') = instances (c_methods s)"
      unfolding ms using Some by (simp add: instances_update)
    show ?thesis
    proof (rule composer_ok_recomputed [where ?c0.0 = "c_composer s"])
      show "count_ok ?s'" using ok by (rule count_ok_disableMethod)
      show "distinct (instances (c_methods ?s'))" using c inst by (simp add: composer_ok_def)
      show "set (c_composer s) \<subseteq> set (instances (c_methods ?s'))"
        using composer_subset [OF c] inst by simp
      show "c_composer ?s' = updateComposer_loop (c_enabled ?s') (c_methods ?s') (c_composer s)"
        using co ms en by simp
    qed
  qed
qed

lemma composer_ok_flags:
  assumes c: "composer_ok s" and ok': "count_ok s'"
    and m: "map_of (c_methods s) i = Some m"
    and ms: "c_methods s' = AList.update i m' (c_methods s)"
    and same: "m_instance m' = m_instance m" "m_enabled m' = m_enabled m"
    and rest: "c_enabled s' = c_enabled s" "c_composer s' = c_composer s"
  shows "composer_ok s'"
  using c ok' rest
  by (simp add: composer_ok_def engaged_instances_def ms
        instances_update [OF m same(1)] engaged_update [OF m same])

lemma composer_ok_handleActive:
  assumes c: "composer_ok s"
  shows "composer_ok (state_of (handleActive dbg i s))"
proof (cases "map_of (c_methods s) i")
  case None
  with c show ?thesis by (simp add: handleActive_def)
next
  case (Some m)
  have ok: "count_ok s" using c by (rule composer_ok_count_ok)
  show ?thesis
  proof (cases "m_enabled m \<and> \<not> m_active m")
    case False
    with Some c show ?thesis by (auto simp add: handleActive_def)
  next
    case True
    then have e: "m_enabled m" and a: "\<not> m_active m" by simp_all
    show ?thesis
    proof (rule composer_ok_flags [OF c _ Some, where m' = "m\<lparr>m_active := True\<rparr>"])
      show "count_ok (state_of (handleActive dbg i s))" using ok by (rule count_ok_handleActive)
    qed (simp_all add: handleActive_result [OF Some e a ok] emit_def)
  qed
qed

lemma composer_ok_handleInactive:
  assumes c: "composer_ok s"
  shows "composer_ok (state_of (handleInactive dbg i s))"
proof (cases "map_of (c_methods s) i")
  case None
  with c show ?thesis by (simp add: handleInactive_def)
next
  case (Some m)
  have ok: "count_ok s" using c by (rule composer_ok_count_ok)
  show ?thesis
  proof (cases "m_enabled m \<and> m_active m")
    case False
    with Some c show ?thesis by (auto simp add: handleInactive_def)
  next
    case True
    then have e: "m_enabled m" and a: "m_active m" by simp_all
    show ?thesis
    proof (rule composer_ok_flags [OF c _ Some, where m' = "m\<lparr>m_active := False\<rparr>"])
      show "count_ok (state_of (handleInactive dbg i s))" using ok by (rule count_ok_handleInactive)
    qed (simp_all add: handleInactive_result [OF Some e a ok] emit_def)
  qed
qed

lemma composer_ok_registerMethod:
  assumes c: "composer_ok s" and fresh: "x \<notin> set (instances (c_methods s))"
  shows "composer_ok (state_of (registerMethod dbg i x e s))"
proof (cases "map_of (c_methods s) i")
  case (Some m)
  with c show ?thesis by (simp add: registerMethod_def)
next
  case None
  let ?s1 = "set_record i \<lparr>m_instance = x, m_enabled = False, m_active = False\<rparr> s"
  have ok: "count_ok s" using c by (rule composer_ok_count_ok)
  have ok1: "count_ok ?s1"
    using ok None
    by (simp add: count_ok_def set_record_def count_update_new active_flag_def distinct_update)
  have c1: "composer_ok ?s1"
    using c ok1 fresh None
    by (simp add: composer_ok_def engaged_instances_def set_record_def update_new
          instances_def engaged_def)
  then have "composer_ok (state_of (enableMethod dbg i ?s1))"
    by (rule composer_ok_enableMethod)
  with None c1 show ?thesis
    by (simp add: registerMethod_def Let_def)
qed

lemma composer_ok_delete_disabled:
  assumes c: "composer_ok s" and m: "map_of (c_methods s) i = Some m" and d: "\<not> m_enabled m"
  shows "composer_ok (s\<lparr>c_methods := AList.delete i (c_methods s)\<rparr>)"
proof -
  have "count_ok (s\<lparr>c_methods := AList.delete i (c_methods s)\<rparr>)"
    using composer_ok_count_ok [OF c] m d by (rule count_ok_delete_disabled)
  moreover have "distinct (map fst (c_methods s))"
    using c by (simp add: composer_ok_def count_ok_def)
  ultimately show ?thesis
    using c m d
    by (simp add: composer_ok_def engaged_instances_def engaged_delete distinct_instances_delete)
qed

lemma composer_ok_unregisterMethod:
  assumes c: "composer_ok s"
  shows "composer_ok (state_of (unregisterMethod dbg i s))"
proof (cases "map_of (c_methods s) i")
  case None
  with c show ?thesis by (simp add: unregisterMethod_def)
next
  case (Some m)
  have ok: "count_ok s" using c by (rule composer_ok_count_ok)
  show ?thesis
  proof (cases "m_enabled m")
    case False
    with Some c show ?thesis
      by (simp add: unregisterMethod_def composer_ok_delete_disabled)
  next
    case True
    let ?s' = "state_of (disableMethod dbg i s)"
    have c': "composer_ok ?s'" using c by (rule composer_ok_disableMethod)
    have m': "map_of (c_methods ?s') i = Some (m\<lparr>m_enabled := False\<rparr>)"
      by (simp add: disableMethod_result [OF Some True ok] emit_def updateComposer_def update_conv')
    have "composer_ok (?s'\<lparr>c_methods := AList.delete i (c_methods ?s')\<rparr>)"
      by (rule composer_ok_delete_disabled [OF c' m']) simp
    then show ?thesis
      using Some True by (simp add: unregisterMethod_def disableMethod_result [OF Some True ok])
  qed
qed

lemma composer_ok_forEach:
  assumes f: "\<And>i s. composer_ok s \<Longrightarrow> composer_ok (state_of (f i s))"
  shows "composer_ok s \<Longrightarrow> composer_ok (state_of (forEach ids f s))"
proof (induction ids arbitrary: s)
  case Nil
  then show ?case by simp
next
  case (Cons i ids)
  from Cons.prems have "composer_ok (state_of (f i s))" by (rule f)
  then show ?case
    using Cons.IH by (cases "f i s") simp_all
qed

lemma composer_ok_toggle:
  assumes c: "composer_ok s"
  shows "composer_ok (state_of (enable s))" and "composer_ok (state_of (disable s))"
proof -
  have sub: "set (c_composer s) \<subseteq> set (instances (c_methods s))" using c by (rule composer_subset)
  have ok: "count_ok s" and d: "distinct (instances (c_methods s))"
    using c by (simp_all add: composer_ok_def)
  show "composer_ok (state_of (enable s))"
  proof (cases "c_enabled s")
    case True
    with c show ?thesis by (simp add: enable_def)
  next
    case False
    show ?thesis
      by (rule composer_ok_recomputed [where ?c0.0 = "c_composer s"])
         (use False ok d sub in \<open>simp_all add: enable_def Let_def emit_def updateComposer_def count_ok_def\<close>)
  qed
  show "composer_ok (state_of (disable s))"
  proof (cases "c_enabled s")
    case False
    with c show ?thesis by (simp add: disable_def)
  next
    case True
    show ?thesis
      by (rule composer_ok_recomputed [where ?c0.0 = "c_composer s"])
         (use True ok d sub in \<open>simp_all add: disable_def Let_def emit_def updateComposer_def count_ok_def\<close>)
  qed
qed

lemma composer_ok_step:
  assumes c: "composer_ok s" and a: "admissible op s"
  shows "composer_ok (state_of (step dbg op s))"
proof (cases op)
  case (RegisterMethod i x e)
  with c a show ?thesis by (simp add: composer_ok_registerMethod)
next
  case (EnableMethodGroup g)
  with c show ?thesis
    by (simp add: enableMethodGroup_def composer_ok_forEach composer_ok_enableMethod
          split: option.splits)
next
  case (DisableMethodGroup g)
  with c show ?thesis
    by (simp add: disableMethodGroup_def composer_ok_forEach composer_ok_disableMethod
          split: option.splits)
next
  case (AddMethodGroup g ids)
  with c show ?thesis
    by (simp add: addMethodGroup_def composer_ok_def count_ok_def engaged_instances_def)
next
  case (RemoveMethodGroup g)
  with c show ?thesis
    by (simp add: removeMethodGroup_def composer_ok_def count_ok_def engaged_instances_def)
qed (simp_all add: c composer_ok_unregisterMethod composer_ok_enableMethod
       composer_ok_disableMethod composer_ok_handleActive composer_ok_handleInactive
       composer_ok_toggle)

lemma composer_ok_run:
  "composer_ok s \<Longrightarrow> admissible_run dbg ops s \<Longrightarrow> composer_ok (run dbg ops s)"
  by (induction ops arbitrary: s) (simp_all add: composer_ok_step)

lemma composer_ok_constructor: "composer_ok (constructor opts)"
  by (simp add: composer_ok_def count_ok_def constructor_def Let_def count_records_def
        instances_def engaged_instances_def engaged_def)

text \<open>C2, as amended: while no instance is registered under two ids at once, after
  every engine operation the Composer holds exactly the instances of the records that are
  enabled while the engine is enabled; and \<open>_updateComposer\<close> changes no field of the engine
  but the Composer.\<close>

theorem composer_membership:
  assumes "admissible_run dbg ops (constructor opts)"
  shows "set (c_composer (run dbg ops (constructor opts)))
           = engaged_instances (run dbg ops (constructor opts)) \<and>
         updateComposer s = s\<lparr>c_composer := c_composer (updateComposer s)\<rparr>"
  using composer_ok_run [OF composer_ok_constructor assms]
  by (simp add: composer_ok_def updateComposer_def)

theorem composer_membership_witness:
  "admissible_run True (keyboard_and_touch @ [DisableMethod ''touch'']) (constructor None) \<and>
   set (c_composer (run True (keyboard_and_touch @ [DisableMethod ''touch'']) (constructor None)))
     = {1} \<and>
   engaged_instances (run True (keyboard_and_touch @ [DisableMethod ''touch'']) (constructor None))
     = {1}"
  using composer_membership [of True "keyboard_and_touch @ [DisableMethod ''touch'']" None]
  by (simp add: eval_defs engaged_instances_def engaged_def instances_def)

text \<open>C2 as stated fails when two records share an instance: disabling one of them
  removes the instance from the Composer although the other record is still enabled.\<close>

theorem shared_instance_counterexample:
  "c_enabled (run True [RegisterMethod ''keyboard'' 1 True, RegisterMethod ''keys'' 1 True,
                        DisableMethod ''keys''] (constructor None)) \<and>
   map_of (c_methods (run True [RegisterMethod ''keyboard'' 1 True, RegisterMethod ''keys'' 1 True,
                        DisableMethod ''keys''] (constructor None))) ''keyboard''
     = Some \<lparr>m_instance = 1, m_enabled = True, m_active = False\<rparr> \<and>
   c_composer (run True [RegisterMethod ''keyboard'' 1 True, RegisterMethod ''keys'' 1 True,
                        DisableMethod ''keys''] (constructor None)) = [] \<and>
   engaged_instances (run True [RegisterMethod ''keyboard'' 1 True, RegisterMethod ''keys'' 1 True,
                        DisableMethod ''keys''] (constructor None)) = {1}"
  by (simp add: eval_defs engaged_instances_def engaged_def instances_def)

subsection \<open>The constructor\<close>


section \<open>Properties of the pre-render step\<close>

lemma updateViews_loop_effect:
  "\<exists>new. c_updatedViews (updateViews_loop ls offs s) = c_updatedViews s @ new \<and>
         c_calls (updateViews_loop ls offs s)
           = c_calls s @ map (\<lambda>v. UpdateWithControlParameters v offs) new \<and>
         set new = l_view ` set ls - set (c_updatedViews s) \<and>
         distinct new"
proof (induction ls arbitrary: s)
  case Nil
  show ?case by simp
next
  case (Cons l ls)
  show ?case
  proof (cases "l_view l \<in> set (c_updatedViews s)")
    case True
    from Cons.IH [of s] obtain new where
      "c_updatedViews (updateViews_loop ls offs s) = c_updatedViews s @ new"
      "c_calls (updateViews_loop ls offs s)
         = c_calls s @ map (\<lambda>v. UpdateWithControlParameters v offs) new"
      "set new = l_view ` set ls - set (c_updatedViews s)" "distinct new"
      by blast
    with True show ?thesis by (auto simp: Let_def)
  next
    case False
    let ?s1 = "s\<lparr>c_calls := c_calls s @ [UpdateWithControlParameters (l_view l) offs],
                   c_updatedViews := c_updatedViews s @ [l_view l]\<rparr>"
    from Cons.IH [of ?s1] obtain new where new:
      "c_updatedViews (updateViews_loop ls offs ?s1) = c_updatedViews ?s1 @ new"
      "c_calls (updateViews_loop ls offs ?s1)
         = c_calls ?s1 @ map (\<lambda>v. UpdateWithControlParameters v offs) new"
      "set new = l_view ` set ls - set (c_updatedViews ?s1)" "distinct new"
      by blast
    have step: "updateViews_loop (l # ls) offs s = updateViews_loop ls offs ?s1"
      using False by (simp add: Let_def)
    show ?thesis
      unfolding step using new False
      by (intro exI [of _ "l_view l # new"]) auto
  qed
qed

text \<open>C9: a pre-render step of an attached engine returns. It queries the Composer
  once; it asks the render loop for one more frame exactly when the result is
  \<open>changing\<close>; and then it passes the offsets to each view of the stage's layers exactly
  once, however many layers share the view.\<close>

theorem prerender_step:
  assumes "c_attachedRenderLoop s = Some rl"
  shows "returned (updateViewsWithControls cd layers s) \<and>
         c_calls (state_of (updateViewsWithControls cd layers s))
           = c_calls s @ [ComposerOffsets]
             @ (if cd_changing cd then [RenderOnNextFrame rl] else [])
             @ map (\<lambda>v. UpdateWithControlParameters v (cd_offsets cd))
                 (c_updatedViews (state_of (updateViewsWithControls cd layers s))) \<and>
         distinct (c_updatedViews (state_of (updateViewsWithControls cd layers s))) \<and>
         set (c_updatedViews (state_of (updateViewsWithControls cd layers s)))
           = l_view ` set layers"
proof -
  let ?s2 = "s\<lparr>c_calls := c_calls s @ [ComposerOffsets]
                   @ (if cd_changing cd then [RenderOnNextFrame rl] else []),
               c_updatedViews := []\<rparr>"
  have run: "updateViewsWithControls cd layers s
               = Returns (updateViews_loop layers (cd_offsets cd) ?s2)"
    using assms by (simp add: updateViewsWithControls_def Let_def)
  from updateViews_loop_effect [of layers "cd_offsets cd" ?s2] obtain new where
    "c_updatedViews (updateViews_loop layers (cd_offsets cd) ?s2) = c_updatedViews ?s2 @ new"
    "c_calls (updateViews_loop layers (cd_offsets cd) ?s2)
       = c_calls ?s2 @ map (\<lambda>v. UpdateWithControlParameters v (cd_offsets cd)) new"
    "set new = l_view ` set layers - set (c_updatedViews ?s2)" "distinct new"
    by blast
  then show ?thesis unfolding run by simp
qed

theorem prerender_step_witness:
  "c_attachedRenderLoop (state_of (attach 7 (constructor None))) = Some 7 \<and>
   c_calls (state_of (updateViewsWithControls \<lparr>cd_offsets = 5, cd_changing = True\<rparr>
      [\<lparr>l_view = 3\<rparr>, \<lparr>l_view = 4\<rparr>, \<lparr>l_view = 3\<rparr>]
      (state_of (attach 7 (constructor None)))))
     = [ComposerOffsets, RenderOnNextFrame 7,
        UpdateWithControlParameters 3 5, UpdateWithControlParameters 4 5]"
  using prerender_step [of "state_of (attach 7 (constructor None))" 7
          "\<lparr>cd_offsets = 5, cd_changing = True\<rparr>"
          "[\<lparr>l_view = 3\<rparr>, \<lparr>l_view = 4\<rparr>, \<lparr>l_view = 3\<rparr>]"]
  by (simp add: attach_def constructor_def updateViewsWithControls_def Let_def)

section \<open>Properties of the Timer\<close>

text \<open>C8: on a started timer, \<open>setDuration(d)\<close> with \<open>d\<close> at most the time elapsed
  since the last start emits exactly one \<open>timeout\<close> within the call and leaves the timer
  stopped, with no timeout pending. With \<open>d\<close> above the elapsed time it emits nothing and
  leaves the timer started, with the timeout due once \<open>d\<close> has elapsed since the last
  start: the pending timeout does not run before that time, and when it runs at or after
  it, it emits \<open>timeout\<close> once and stops the timer. With \<open>d = Infinity\<close> no timeout is
  pending.\<close>

theorem setDuration_while_started:
  assumes "t_startTime s = Some t0"
  shows "(d \<le> t - t0 \<longrightarrow>
            setDuration t (Fin d) s
              = s\<lparr>t_duration := Fin d, t_startTime := None, t_handle := None,
                   t_emitted := t_emitted s @ [Timeout]\<rparr>) \<and>
         (t - t0 < d \<longrightarrow>
            setDuration t (Fin d) s = s\<lparr>t_duration := Fin d, t_handle := Some (t0 + d)\<rparr> \<and>
            (\<forall>t'. t' < t0 + d \<longrightarrow>
               timeout_fires t' (setDuration t (Fin d) s) = setDuration t (Fin d) s) \<and>
            (\<forall>t'. t0 + d \<le> t' \<longrightarrow>
               timeout_fires t' (setDuration t (Fin d) s)
                 = s\<lparr>t_duration := Fin d, t_startTime := None, t_handle := None,
                      t_emitted := t_emitted s @ [Timeout]\<rparr>)) \<and>
         setDuration t Infinity s = s\<lparr>t_duration := Infinity, t_handle := None\<rparr>"
proof -
  have fires: "d \<le> t - t0 \<Longrightarrow> setDuration t (Fin d) s
              = s\<lparr>t_duration := Fin d, t_startTime := None, t_handle := None,
                   t_emitted := t_emitted s @ [Timeout]\<rparr>"
    using assms by (simp add: setDuration_def check_def teardown_def Let_def)
  have later: "setDuration t (Fin d) s = s\<lparr>t_duration := Fin d, t_handle := Some (t0 + d)\<rparr>"
    if "t - t0 < d"
    using assms that by (simp add: setDuration_def check_def teardown_def timer_setup_def Let_def)
  have early: "timeout_fires t' (s\<lparr>t_duration := Fin d, t_handle := Some (t0 + d)\<rparr>)
                 = s\<lparr>t_duration := Fin d, t_handle := Some (t0 + d)\<rparr>"
    if "t' < t0 + d" for t'
    using that by (simp add: timeout_fires_def)
  have due: "timeout_fires t' (s\<lparr>t_duration := Fin d, t_handle := Some (t0 + d)\<rparr>)
                 = s\<lparr>t_duration := Fin d, t_startTime := None, t_handle := None,
                      t_emitted := t_emitted s @ [Timeout]\<rparr>"
    if "t0 + d \<le> t'" for t'
    using that assms by (simp add: timeout_fires_def check_def teardown_def Let_def)
  have inf: "setDuration t Infinity s = s\<lparr>t_duration := Infinity, t_handle := None\<rparr>"
    using assms by (simp add: setDuration_def check_def teardown_def Let_def)
  from fires later early due inf show ?thesis by simp
qed

theorem setDuration_while_started_witness:
  "t_startTime (start 0 (timer_constructor (Some (Fin 100)))) = Some 0 \<and>
   setDuration 50 (Fin 10) (start 0 (timer_constructor (Some (Fin 100))))
     = \<lparr>t_duration = Fin 10, t_startTime = None, t_handle = None, t_emitted = [Timeout]\<rparr> \<and>
   setDuration 50 (Fin 80) (start 0 (timer_constructor (Some (Fin 100))))
     = \<lparr>t_duration = Fin 80, t_startTime = Some 0, t_handle = Some 80, t_emitted = []\<rparr> \<and>
   timeout_fires 80 (setDuration 50 (Fin 80) (start 0 (timer_constructor (Some (Fin 100)))))
     = \<lparr>t_duration = Fin 80, t_startTime = None, t_handle = None, t_emitted = [Timeout]\<rparr>"
  using setDuration_while_started [of "start 0 (timer_constructor (Some (Fin 100)))" 0 10 50]
        setDuration_while_started [of "start 0 (timer_constructor (Some (Fin 100)))" 0 80 50]
  by (simp add: start_def timer_constructor_def timer_setup_def setDuration_def check_def
        teardown_def timeout_fires_def Let_def)

end
